theory Spec2Isabelle
  imports Main
begin

section \<open>Time\<close>

text \<open>
  The engine reads the wall clock with \<^verbatim>\<open>time.Now()\<close>, adds a \<^verbatim>\<open>time.Duration\<close>
  with \<^verbatim>\<open>Add\<close> and reduces an instant to whole seconds with \<^verbatim>\<open>Unix()\<close>.
  An instant is modelled as its number of nanoseconds since the Unix epoch, a duration
  as its number of nanoseconds (Go's \<^verbatim>\<open>Duration\<close> counts nanoseconds and may be
  negative). Go keeps an instant as whole seconds plus a nanosecond part in
  \<open>0 .. 999999999\<close>, so \<^verbatim>\<open>Unix()\<close> is the floor of the instant in seconds, which is
  what \<open>div\<close> on \<open>int\<close> computes. The clock is a parameter of every operation that
  reads it.
\<close>

type_synonym Time = int
type_synonym Duration = int

definition Second :: Duration where
  "Second = 1000000000"

definition Add :: "Time \<Rightarrow> Duration \<Rightarrow> Time" where
  "Add t d = t + d"

definition Unix :: "Time \<Rightarrow> int" where
  "Unix t = t div Second"

section \<open>The cache\<close>

text \<open>
  \<^verbatim>\<open>CacheItem\<close> holds the payload and the expiration in Unix seconds. The payload
  is an \<^verbatim>\<open>interface{}\<close>: it is \<open>None\<close> for Go's \<^verbatim>\<open>nil\<close> and \<open>Some v\<close> for any
  other value. \<^verbatim>\<open>Cache.items\<close> is a Go map from string to \<^verbatim>\<open>CacheItem\<close>. The
  mutex of \<^verbatim>\<open>Cache\<close> holds no data; the operations below are the bodies that run
  between locking and unlocking it.
\<close>

record 'v CacheItem =
  "value" :: "'v option"
  expiration :: int

record 'v Cache =
  items :: "string \<rightharpoonup> 'v CacheItem"

text \<open>
  \<^verbatim>\<open>NewCache\<close> makes the cache with an empty map and starts the background loop
  in a goroutine of its own; the ticks of the loop are calls on the cache like any other.
\<close>

definition NewCache :: "'v Cache" where
  "NewCache = \<lparr>items = Map.empty\<rparr>"

definition Set :: "'v Cache \<Rightarrow> Time \<Rightarrow> string \<Rightarrow> 'v option \<Rightarrow> Duration \<Rightarrow> 'v Cache" where
  "Set c now key v d =
     c\<lparr>items := (items c)(key \<mapsto> \<lparr>value = v, expiration = Unix (Add now d)\<rparr>)\<rparr>"

text \<open>
  \<^verbatim>\<open>Get\<close> returns the pair of the source, \<open>(value, found)\<close>, together with the
  cache after the call: the lookup, the miss, the eviction of an expired item and the hit,
  in the order of the source.
\<close>

definition Get :: "'v Cache \<Rightarrow> Time \<Rightarrow> string \<Rightarrow> ('v option \<times> bool) \<times> 'v Cache" where
  "Get c now key =
     (case items c key of
        None \<Rightarrow> ((None, False), c)
      | Some item \<Rightarrow>
          if Unix now > expiration item
          then ((None, False), c\<lparr>items := (items c)(key := None)\<rparr>)
          else ((value item, True), c))"

text \<open>
  \<^verbatim>\<open>evictExpiredItems\<close> ranges over the map and reads the clock anew in every
  iteration. Go leaves the order of a map range open, so the enumeration is a parameter:
  the list of the keys in the order the range yields them, each with the clock reading of
  its iteration. The item of an iteration is the one the map holds for the key; a key the
  map does not hold is never yielded, and the model passes over it.
\<close>

fun evictExpiredItems :: "'v Cache \<Rightarrow> (string \<times> Time) list \<Rightarrow> 'v Cache" where
  "evictExpiredItems c [] = c"
| "evictExpiredItems c ((key, now) # rest) =
     (case items c key of
        None \<Rightarrow> evictExpiredItems c rest
      | Some item \<Rightarrow>
          if Unix now > expiration item
          then evictExpiredItems (c\<lparr>items := (items c)(key := None)\<rparr>) rest
          else evictExpiredItems c rest)"

text \<open>
  A range over the map yields every key of the map exactly once (the loop deletes only
  the key it is at).
\<close>

definition ranges_over :: "(string \<times> Time) list \<Rightarrow> 'v Cache \<Rightarrow> bool" where
  "ranges_over visits c \<longleftrightarrow>
     distinct (map fst visits) \<and> set (map fst visits) = dom (items c)"

section \<open>Calls in sequence\<close>

text \<open>
  The mutex serialises the calls on a cache: the handlers call \<^verbatim>\<open>Set\<close> and
  \<^verbatim>\<open>Get\<close>, the background loop calls \<^verbatim>\<open>evictExpiredItems\<close>. A history of
  the cache is the list of these calls in the order they ran, each with the clock
  readings it made.
\<close>

datatype 'v call =
    CallSet Time string "'v option" Duration
  | CallGet Time string
  | CallEvict "(string \<times> Time) list"

fun step :: "'v Cache \<Rightarrow> 'v call \<Rightarrow> 'v Cache" where
  "step c (CallSet now key v d) = Set c now key v d"
| "step c (CallGet now key) = snd (Get c now key)"
| "step c (CallEvict visits) = evictExpiredItems c visits"

fun run :: "'v Cache \<Rightarrow> 'v call list \<Rightarrow> 'v Cache" where
  "run c [] = c"
| "run c (x # xs) = run (step c x) xs"

text \<open>\<open>sets k x\<close>: the call \<open>x\<close> is a \<^verbatim>\<open>Set\<close> of key \<open>k\<close>.\<close>

fun sets :: "string \<Rightarrow> 'v call \<Rightarrow> bool" where
  "sets k (CallSet now key v d) = (key = k)"
| "sets k (CallGet now key) = False"
| "sets k (CallEvict visits) = False"

text \<open>
  \<open>checks k x\<close>: the clock readings that the call \<open>x\<close> compares with the expiration
  of key \<open>k\<close>.
\<close>

fun checks :: "string \<Rightarrow> 'v call \<Rightarrow> Time list" where
  "checks k (CallSet now key v d) = []"
| "checks k (CallGet now key) = (if key = k then [now] else [])"
| "checks k (CallEvict visits) = map snd (filter (\<lambda>visit. fst visit = k) visits)"

text \<open>
  \<^verbatim>\<open>startEvictionProcess\<close> starts a goroutine whose loop never returns: it calls
  \<^verbatim>\<open>evictExpiredItems\<close> and sleeps a second, forever. Sleeping changes no state.
  The loop is run on the list of the ticks it has made so far, one enumeration with its
  clock readings for each tick; a longer list is a longer run of the same loop.
\<close>

fun startEvictionProcess :: "'v Cache \<Rightarrow> (string \<times> Time) list list \<Rightarrow> 'v Cache" where
  "startEvictionProcess c [] = c"
| "startEvictionProcess c (visits # ticks) =
     startEvictionProcess (evictExpiredItems c visits) ticks"

text \<open>
  A run of the loop with its timing: every tick with the instant at which it starts.
  \<open>loop_ok c ticks\<close>: each tick ranges over the map as the ticks before it left it, and
  no iteration of a tick reads the clock before the tick starts. \<open>spaced I starts\<close>:
  every tick starts at most \<open>I\<close> after the tick before it; the loop sleeps a second
  between two ticks, so \<open>I\<close> is a second and the time the sweep and the scheduler take.
\<close>

fun loop_ok :: "'v Cache \<Rightarrow> (Time \<times> (string \<times> Time) list) list \<Rightarrow> bool" where
  "loop_ok c [] = True"
| "loop_ok c ((start, visits) # rest) =
     (ranges_over visits c \<and> (\<forall>t \<in> set (map snd visits). start \<le> t) \<and>
      loop_ok (evictExpiredItems c visits) rest)"

fun spaced :: "Duration \<Rightarrow> Time list \<Rightarrow> bool" where
  "spaced I [] = True"
| "spaced I [t] = True"
| "spaced I (t # u # ts) = (u \<le> t + I \<and> spaced I (u # ts))"

section \<open>The mutex and concurrent calls\<close>

text \<open>
  \<^verbatim>\<open>Cache.mutex\<close> is a \<^verbatim>\<open>sync.RWMutex\<close>: it is held by any number of readers or
  by one writer. \<^verbatim>\<open>RLock\<close> waits while a writer holds it, \<^verbatim>\<open>Lock\<close> waits while a
  writer or any reader holds it.
\<close>

record RWMutex =
  readers :: nat
  writer :: bool

text \<open>
  A goroutine runs one call on the cache, statement by statement. Its position is the
  statement of the source it is at, with the local variables that are live there:
  \<^verbatim>\<open>Get\<close> at its \<^verbatim>\<open>RLock\<close>, at the lookup, at the expiration check (with the item
  it found), at the \<^verbatim>\<open>delete\<close>, at the deferred \<^verbatim>\<open>RUnlock\<close> (with its result);
  \<^verbatim>\<open>Set\<close> at its \<^verbatim>\<open>Lock\<close>, at the store, at the deferred \<^verbatim>\<open>Unlock\<close>;
  \<^verbatim>\<open>evictExpiredItems\<close> at its \<^verbatim>\<open>Lock\<close>, in its range (with the keys the range
  has yet to yield), at the deferred \<^verbatim>\<open>Unlock\<close>; and a call that has returned, with
  the result of a \<^verbatim>\<open>Get\<close>.
\<close>

datatype 'v goroutine =
    GetRLock string
  | GetLookup string
  | GetCheck string "'v CacheItem"
  | GetDelete string
  | GetRUnlock "'v option \<times> bool"
  | SetLock string "'v option" Duration
  | SetStore string "'v option" Duration
  | SetUnlock
  | EvictLock "string list"
  | EvictRange "string list"
  | EvictUnlock
  | Returned "('v option \<times> bool) option"

text \<open>
  One statement of a goroutine, on the cache and the mutex, with the clock reading of the
  statement if it reads the clock. The result is \<open>None\<close> when the goroutine cannot move:
  it waits for the mutex, or it has returned.
\<close>

fun advance ::
  "'v Cache \<Rightarrow> RWMutex \<Rightarrow> Time \<Rightarrow> 'v goroutine \<Rightarrow> ('v Cache \<times> RWMutex \<times> 'v goroutine) option"
where
  "advance c m now (GetRLock key) =
     (if writer m then None else Some (c, m\<lparr>readers := readers m + 1\<rparr>, GetLookup key))"
| "advance c m now (GetLookup key) =
     (case items c key of
        None \<Rightarrow> Some (c, m, GetRUnlock (None, False))
      | Some item \<Rightarrow> Some (c, m, GetCheck key item))"
| "advance c m now (GetCheck key item) =
     (if Unix now > expiration item then Some (c, m, GetDelete key)
      else Some (c, m, GetRUnlock (value item, True)))"
| "advance c m now (GetDelete key) =
     Some (c\<lparr>items := (items c)(key := None)\<rparr>, m, GetRUnlock (None, False))"
| "advance c m now (GetRUnlock result) =
     Some (c, m\<lparr>readers := readers m - 1\<rparr>, Returned (Some result))"
| "advance c m now (SetLock key v d) =
     (if writer m \<or> 0 < readers m then None else Some (c, m\<lparr>writer := True\<rparr>, SetStore key v d))"
| "advance c m now (SetStore key v d) = Some (Set c now key v d, m, SetUnlock)"
| "advance c m now SetUnlock = Some (c, m\<lparr>writer := False\<rparr>, Returned None)"
| "advance c m now (EvictLock keys) =
     (if writer m \<or> 0 < readers m then None else Some (c, m\<lparr>writer := True\<rparr>, EvictRange keys))"
| "advance c m now (EvictRange []) = Some (c, m, EvictUnlock)"
| "advance c m now (EvictRange (key # keys)) =
     Some (evictExpiredItems c [(key, now)], m, EvictRange keys)"
| "advance c m now EvictUnlock = Some (c, m\<lparr>writer := False\<rparr>, Returned None)"
| "advance c m now (Returned result) = None"

text \<open>
  The process: the cache, its mutex and the goroutines that call it. A schedule is the
  list of the goroutines in the order they make their statements, each with the clock
  reading at that statement.
\<close>

record 'v process =
  cache :: "'v Cache"
  mutex :: RWMutex
  goroutines :: "'v goroutine list"

definition schedule1 :: "'v process \<Rightarrow> nat \<times> Time \<Rightarrow> 'v process option" where
  "schedule1 p turn =
     (if fst turn < length (goroutines p)
      then (case advance (cache p) (mutex p) (snd turn) (goroutines p ! fst turn) of
              None \<Rightarrow> None
            | Some (c, m, g) \<Rightarrow>
                Some \<lparr>cache = c, mutex = m, goroutines = (goroutines p)[fst turn := g]\<rparr>)
      else None)"

fun schedule :: "'v process \<Rightarrow> (nat \<times> Time) list \<Rightarrow> 'v process option" where
  "schedule p [] = Some p"
| "schedule p (turn # turns) =
     (case schedule1 p turn of None \<Rightarrow> None | Some p' \<Rightarrow> schedule p' turns)"

text \<open>
  \<open>in_Get k g\<close>: the goroutine is inside the critical section of a \<^verbatim>\<open>Get\<close> of key
  \<open>k\<close>, between its expiration check and its \<^verbatim>\<open>delete\<close>. \<open>observes k g\<close>: the
  goroutine has read the item of key \<open>k\<close> from the map and holds it in a local variable.
\<close>

fun in_Get :: "string \<Rightarrow> 'v goroutine \<Rightarrow> bool" where
  "in_Get k (GetDelete key) = (key = k)"
| "in_Get k g = False"

fun observes :: "string \<Rightarrow> 'v goroutine \<Rightarrow> bool" where
  "observes k (GetCheck key item) = (key = k)"
| "observes k g = False"

section \<open>Basic facts\<close>

lemma Unix_mono: "s \<le> t \<Longrightarrow> Unix s \<le> Unix t"
  by (simp add: Unix_def Second_def zdiv_mono1)

lemma Unix_add_Second: "Unix (t + Second) = Unix t + 1"
  by (simp add: Unix_def Second_def)

lemma items_Set:
  "items (Set c now key v d) =
     (items c)(key \<mapsto> \<lparr>value = v, expiration = Unix (Add now d)\<rparr>)"
  by (simp add: Set_def)

lemma Get_None: "items c key = None \<Longrightarrow> Get c now key = ((None, False), c)"
  by (simp add: Get_def)

lemma Get_expired:
  "items c key = Some item \<Longrightarrow> expiration item < Unix now \<Longrightarrow>
     Get c now key = ((None, False), c\<lparr>items := (items c)(key := None)\<rparr>)"
  by (simp add: Get_def)

lemma Get_live:
  "items c key = Some item \<Longrightarrow> Unix now \<le> expiration item \<Longrightarrow>
     Get c now key = ((value item, True), c)"
  by (simp add: Get_def)

lemma items_Get_other: "k \<noteq> key \<Longrightarrow> items (snd (Get c now key)) k = items c k"
  by (simp add: Get_def split: option.split)

lemma items_evict_cases:
  "items (evictExpiredItems c visits) k = None \<or>
   items (evictExpiredItems c visits) k = items c k"
proof (induction c visits rule: evictExpiredItems.induct)
  case (1 c)
  show ?case by simp
next
  case (2 c key now rest)
  show ?case
  proof (cases "items c key")
    case None
    with 2 show ?thesis by simp
  next
    case (Some item)
    show ?thesis
    proof (cases "Unix now > expiration item")
      case True
      with Some 2(2) show ?thesis by (cases "k = key") auto
    next
      case False
      with Some 2(3) show ?thesis by simp
    qed
  qed
qed

lemma items_evict_keep:
  "items c k = Some item \<Longrightarrow>
   \<forall>t \<in> set (map snd (filter (\<lambda>visit. fst visit = k) visits)). Unix t \<le> expiration item \<Longrightarrow>
   items (evictExpiredItems c visits) k = Some item"
proof (induction c visits rule: evictExpiredItems.induct)
  case (1 c)
  then show ?case by simp
next
  case (2 c key now rest)
  show ?case
  proof (cases "items c key")
    case None
    with 2 show ?thesis by (cases "k = key") auto
  next
    case (Some item')
    show ?thesis
    proof (cases "Unix now > expiration item'")
      case True
      with Some 2(2)[OF Some True] 2(4,5) show ?thesis by (cases "k = key") auto
    next
      case False
      with Some 2(3)[OF Some False] 2(4,5) show ?thesis by (cases "k = key") auto
    qed
  qed
qed

lemma items_evict_drop:
  "items c k = Some item \<Longrightarrow> (k, t) \<in> set visits \<Longrightarrow>
   \<forall>t \<in> set (map snd (filter (\<lambda>visit. fst visit = k) visits)). expiration item < Unix t \<Longrightarrow>
   items (evictExpiredItems c visits) k = None"
proof (induction c visits rule: evictExpiredItems.induct)
  case (1 c)
  then show ?case by simp
next
  case (2 c key now rest)
  show ?case
  proof (cases "k = key")
    case True
    with 2(4,6) have "expiration item < Unix now" "items c key = Some item" by auto
    moreover have "items (evictExpiredItems (c\<lparr>items := (items c)(key := None)\<rparr>) rest) k = None"
      using items_evict_cases [of "c\<lparr>items := (items c)(key := None)\<rparr>" rest k] True by auto
    ultimately show ?thesis by simp
  next
    case False
    with 2(5) have mem: "(k, t) \<in> set rest" by auto
    show ?thesis
    proof (cases "items c key")
      case None
      with 2(1)[OF None _ mem] 2(4,6) False show ?thesis by auto
    next
      case (Some item')
      show ?thesis
      proof (cases "Unix now > expiration item'")
        case True
        with Some 2(2)[OF Some True _ mem] 2(4,6) False show ?thesis by auto
      next
        case no: False
        with Some 2(3)[OF Some no _ mem] 2(4,6) False show ?thesis by auto
      qed
    qed
  qed
qed


lemma items_step_cases:
  "\<not> sets k x \<Longrightarrow> items (step c x) k = None \<or> items (step c x) k = items c k"
proof (cases x)
  case (CallSet now key v d)
  then show ?thesis if "\<not> sets k x" using that by (simp add: items_Set)
next
  case (CallGet now key)
  then show ?thesis by (auto simp: Get_def split: option.split)
next
  case (CallEvict visits)
  then show ?thesis using items_evict_cases [of c visits k] by simp
qed

lemma items_step_keep:
  assumes "items c k = Some item" and "\<not> sets k x"
    and "\<forall>t \<in> set (checks k x). Unix t \<le> expiration item"
  shows "items (step c x) k = Some item"
proof (cases x)
  case (CallSet now key v d)
  with assms show ?thesis by (simp add: items_Set)
next
  case (CallGet now key)
  with assms show ?thesis by (cases "key = k") (auto simp: Get_def split: option.split)
next
  case (CallEvict visits)
  with assms show ?thesis using items_evict_keep [of c k item visits] by simp
qed

lemma items_run_cases:
  "\<forall>x \<in> set xs. \<not> sets k x \<Longrightarrow> items (run c xs) k = None \<or> items (run c xs) k = items c k"
proof (induction xs arbitrary: c)
  case Nil
  show ?case by simp
next
  case (Cons x xs)
  from Cons.prems have x: "\<not> sets k x" and xs: "\<forall>x \<in> set xs. \<not> sets k x" by simp_all
  from Cons.IH [OF xs, of "step c x"] items_step_cases [OF x, of c]
  show ?case by auto
qed

lemma items_run_keep:
  "items c k = Some item \<Longrightarrow>
   \<forall>x \<in> set xs. \<not> sets k x \<and> (\<forall>t \<in> set (checks k x). Unix t \<le> expiration item) \<Longrightarrow>
   items (run c xs) k = Some item"
proof (induction xs arbitrary: c)
  case Nil
  then show ?case by simp
next
  case (Cons x xs)
  from Cons.prems have "items (step c x) k = Some item"
    by (intro items_step_keep) simp_all
  with Cons.IH [of "step c x"] Cons.prems(2) show ?case by simp
qed

lemma checks_distinct:
  "distinct (map fst visits) \<Longrightarrow> (k, t) \<in> set visits \<Longrightarrow>
   set (map snd (filter (\<lambda>visit. fst visit = k) visits)) = {t}"
  by (induction visits) (auto simp: rev_image_eqI)

lemma items_evict_exact:
  assumes "distinct (map fst visits)" and "(k, t) \<in> set visits"
  shows "items (evictExpiredItems c visits) k =
     (case items c k of
        None \<Rightarrow> None
      | Some item \<Rightarrow> if Unix t > expiration item then None else Some item)"
proof (cases "items c k")
  case None
  with items_evict_cases [of c visits k] show ?thesis by auto
next
  case (Some item)
  note ch = checks_distinct [OF assms]
  show ?thesis
  proof (cases "Unix t > expiration item")
    case True
    with Some assms(2) ch items_evict_drop [of c k item t visits] show ?thesis by simp
  next
    case False
    with Some ch items_evict_keep [of c k item visits] show ?thesis by simp
  qed
qed

lemma items_loop_cases:
  "items (startEvictionProcess c ticks) k = None \<or>
   items (startEvictionProcess c ticks) k = items c k"
proof (induction ticks arbitrary: c)
  case Nil
  show ?case by simp
next
  case (Cons visits ticks)
  from Cons [of "evictExpiredItems c visits"] items_evict_cases [of c visits k]
  show ?case by auto
qed

lemma Unix_floor: "Unix t * Second \<le> t \<and> t < (Unix t + 1) * Second"
proof -
  have "t = Unix t * Second + t mod Second"
    by (simp add: Unix_def)
  moreover have "0 \<le> t mod Second" and "t mod Second < Second"
    by (simp_all add: Second_def)
  ultimately show ?thesis
    by (simp add: algebra_simps)
qed

lemma Unix_less: "s < t \<Longrightarrow> Unix s \<le> Unix t"
  by (simp add: Unix_mono)

lemma Unix_past: "s + Second \<le> t \<Longrightarrow> Unix s < Unix t"
  using Unix_mono [of "s + Second" t] by (simp add: Unix_add_Second)

lemma ranges_over_visit:
  "ranges_over visits c \<Longrightarrow> items c k = Some item \<Longrightarrow> \<exists>t. (k, t) \<in> set visits"
  by (force simp: ranges_over_def dom_def)

lemma Unix_before: "Unix t \<le> e \<Longrightarrow> t < (e + 1) * Second"
proof -
  assume "Unix t \<le> e"
  then have "(Unix t + 1) * Second \<le> (e + 1) * Second"
    by (simp add: Second_def)
  with Unix_floor [of t] show ?thesis by linarith
qed

lemma Unix_after: "e < Unix t \<Longrightarrow> (e + 1) * Second \<le> t"
proof -
  assume "e < Unix t"
  then have "(e + 1) * Second \<le> Unix t * Second"
    by (simp add: Second_def)
  with Unix_floor [of t] show ?thesis by linarith
qed

lemma Unix_after_iff: "e < Unix t \<longleftrightarrow> (e + 1) * Second \<le> t"
proof
  assume "e < Unix t"
  then show "(e + 1) * Second \<le> t" by (rule Unix_after)
next
  assume a: "(e + 1) * Second \<le> t"
  show "e < Unix t"
  proof (rule ccontr)
    assume "\<not> e < Unix t"
    then have "Unix t \<le> e" by simp
    from Unix_before [OF this] a show False by simp
  qed
qed

lemma items_tick_drop:
  assumes "ranges_over visits c" and "\<forall>t \<in> set (map snd visits). tick \<le> t"
    and "items c k = Some item" and "expiration item < Unix tick"
  shows "items (evictExpiredItems c visits) k = None"
proof -
  from assms(1) have dist: "distinct (map fst visits)"
    by (simp add: ranges_over_def)
  from ranges_over_visit [OF assms(1,3)] obtain t where t: "(k, t) \<in> set visits" ..
  with assms(2) have "tick \<le> t" by force
  with assms(4) have "expiration item < Unix t"
    using Unix_mono [of tick t] by simp
  with items_evict_exact [OF dist t, of c] assms(3) show ?thesis by simp
qed

lemma items_loop_drop:
  "loop_ok c ticks \<Longrightarrow> items c k = Some item \<Longrightarrow> (start, visits) \<in> set ticks \<Longrightarrow>
   expiration item < Unix start \<Longrightarrow>
   items (startEvictionProcess c (map snd ticks)) k = None"
proof (induction ticks arbitrary: c)
  case Nil
  then show ?case by simp
next
  case (Cons tick ticks)
  obtain s0 v0 where tick: "tick = (s0, v0)" by (cases tick)
  from Cons.prems(1) tick have r: "ranges_over v0 c" and t: "\<forall>t \<in> set (map snd v0). s0 \<le> t"
    and ok: "loop_ok (evictExpiredItems c v0) ticks" by simp_all
  show ?case
  proof (cases "items (evictExpiredItems c v0) k")
    case None
    with items_loop_cases [of "evictExpiredItems c v0" "map snd ticks" k] tick
    show ?thesis by simp
  next
    case (Some item')
    with items_evict_cases [of c v0 k] Cons.prems(2)
    have kept: "items (evictExpiredItems c v0) k = Some item" by simp
    have "(start, visits) \<noteq> (s0, v0)"
    proof
      assume "(start, visits) = (s0, v0)"
      with Cons.prems(4) have "expiration item < Unix s0" by simp
      from items_tick_drop [OF r t Cons.prems(2) this] kept show False by simp
    qed
    with Cons.prems(3) tick have "(start, visits) \<in> set ticks" by auto
    from Cons.IH [OF ok kept this Cons.prems(4)] tick show ?thesis by simp
  qed
qed

lemma loop_ok_prefix: "loop_ok c (xs @ ys) \<Longrightarrow> loop_ok c xs"
  by (induction xs arbitrary: c) auto

lemma spaced_first_past:
  "spaced I (map fst ticks) \<Longrightarrow> ticks \<noteq> [] \<Longrightarrow> fst (hd ticks) < X \<Longrightarrow> X \<le> fst (last ticks) \<Longrightarrow>
   \<exists>before start visits after.
     ticks = before @ (start, visits) # after \<and> X \<le> start \<and> start < X + I"
proof (induction ticks)
  case Nil
  then show ?case by simp
next
  case (Cons tick ticks)
  show ?case
  proof (cases ticks)
    case Nil
    with Cons.prems show ?thesis by simp
  next
    case (Cons tick' ticks')
    obtain t1 v1 where t1: "tick' = (t1, v1)" by (cases tick')
    from Cons.prems(1) Cons t1 have gap: "t1 \<le> fst tick + I" and sp: "spaced I (map fst ticks)"
      by simp_all
    show ?thesis
    proof (cases "X \<le> t1")
      case True
      from gap Cons.prems(3) have "t1 < X + I" by simp
      with True Cons t1 have "tick # ticks = [tick] @ (t1, v1) # ticks' \<and> X \<le> t1 \<and> t1 < X + I"
        by simp
      then show ?thesis by blast
    next
      case False
      with Cons t1 have "fst (hd ticks) < X" by simp
      moreover from Cons.prems(4) Cons have "X \<le> fst (last ticks)" by simp
      moreover from Cons have "ticks \<noteq> []" by simp
      ultimately obtain before start visits after
        where "ticks = before @ (start, visits) # after" "X \<le> start" "start < X + I"
        using Cons.IH [OF sp] by blast
      then have "tick # ticks = (tick # before) @ (start, visits) # after \<and> X \<le> start \<and> start < X + I"
        by simp
      then show ?thesis by blast
    qed
  qed
qed

section \<open>The claims\<close>

text \<open>
  C2. \<^verbatim>\<open>Set\<close> is a total function: it has no failure branch and no capacity check.
  It stores for the key an item with the given value and with the expiration computed from
  the clock reading of this call and the ttl, whatever the map held before and however
  many keys it holds; every other key stays in the map. No later call recomputes the
  expiration: after any calls that do not set the key again, the map holds for the key
  either this very item or nothing.
\<close>

theorem Set_stores_expiration_once:
  "items (Set c now key v d) key = Some \<lparr>value = v, expiration = Unix (Add now d)\<rparr> \<and>
   dom (items (Set c now key v d)) = insert key (dom (items c)) \<and>
   ((\<forall>x \<in> set xs. \<not> sets key x) \<longrightarrow>
      items (run (Set c now key v d) xs) key = None \<or>
      items (run (Set c now key v d) xs) key
        = Some \<lparr>value = v, expiration = Unix (Add now d)\<rparr>)"
proof -
  have "items (run (Set c now key v d) xs) key = None \<or>
        items (run (Set c now key v d) xs) key
          = Some \<lparr>value = v, expiration = Unix (Add now d)\<rparr>"
    if "\<forall>x \<in> set xs. \<not> sets key x"
    using items_run_cases [OF that, of "Set c now key v d"] by (simp add: items_Set)
  then show ?thesis by (simp add: items_Set)
qed

theorem Set_stores_expiration_once_witness:
  "\<not> sets ''a'' (CallGet 2000000000 ''a'' :: nat call) \<and>
   \<not> sets ''a'' (CallEvict [(''a'', 2500000000)] :: nat call) \<and>
   \<not> sets ''a'' (CallSet 2600000000 ''b'' (Some 1) 0 :: nat call) \<and>
   items (Set NewCache 1500000000 ''a'' (Some (7::nat)) 2000000000) ''a''
     = Some \<lparr>value = Some 7, expiration = 3\<rparr> \<and>
   items (run (Set NewCache 1500000000 ''a'' (Some (7::nat)) 2000000000)
            [CallGet 2000000000 ''a'', CallEvict [(''a'', 2500000000)],
             CallSet 2600000000 ''b'' (Some 1) 0]) ''a''
     = Some \<lparr>value = Some 7, expiration = 3\<rparr>"
  using Set_stores_expiration_once
    [of NewCache 1500000000 "''a''" "Some (7::nat)" 2000000000
        "[CallGet 2000000000 ''a'', CallEvict [(''a'', 2500000000)],
          CallSet 2600000000 ''b'' (Some 1) 0]"]
  by (simp add: Set_def Get_def NewCache_def Unix_def Add_def Second_def)

text \<open>
  C3. A second \<^verbatim>\<open>Set\<close> of the same key replaces the first one whole: the cache after
  both calls is the cache after the second call alone, so neither the first value nor the
  first ttl has any effect on what follows. A later \<^verbatim>\<open>Get\<close> of the key returns the
  second value as long as its clock reading, in whole seconds, is not past the expiration
  computed from the second call's clock reading and ttl, and a miss after that.
\<close>

theorem Set_overwrites:
  "Set (Set c s1 k v1 d1) s2 k v2 d2 = Set c s2 k v2 d2 \<and>
   items (Set (Set c s1 k v1 d1) s2 k v2 d2) k
     = Some \<lparr>value = v2, expiration = Unix (Add s2 d2)\<rparr> \<and>
   fst (Get (Set (Set c s1 k v1 d1) s2 k v2 d2) t k)
     = (if Unix t \<le> Unix (Add s2 d2) then (v2, True) else (None, False))"
  by (simp add: Set_def Get_def)

text \<open>
  The scenario of the specification: \<^verbatim>\<open>Set("b", 1, 500ms)\<close> at the start of a second,
  then \<^verbatim>\<open>Set("b", 2, 5s)\<close>, then \<^verbatim>\<open>Get("b")\<close> one second later.
\<close>

theorem Set_overwrites_witness:
  "fst (Get (Set (Set NewCache 0 ''b'' (Some (1::nat)) 500000000) 0 ''b'' (Some 2) 5000000000)
          1000000000 ''b'') = (Some 2, True)"
  using Set_overwrites [of NewCache 0 "''b''" "Some (1::nat)" 500000000 0 "Some 2" 5000000000 1000000000]
  by (simp add: Set_def Get_def NewCache_def Unix_def Add_def Second_def)

text \<open>
  C4. When the map holds an item for the key and the clock reading of \<^verbatim>\<open>Get\<close>, in
  whole seconds, is past the item's expiration, \<^verbatim>\<open>Get\<close> returns \<open>(nil, false)\<close> and
  deletes the key from the map and changes nothing else; the key is then absent, and a
  further \<^verbatim>\<open>Get\<close> of it at any time is a miss that leaves the cache as it is.
\<close>

theorem Get_evicts_expired:
  assumes "items c k = Some item" and "expiration item < Unix now"
  shows "Get c now k = ((None, False), c\<lparr>items := (items c)(k := None)\<rparr>) \<and>
         items (snd (Get c now k)) k = None \<and>
         k \<notin> dom (items (snd (Get c now k))) \<and>
         Get (snd (Get c now k)) t k = ((None, False), snd (Get c now k))"
  using assms by (simp add: Get_def)

theorem Get_evicts_expired_witness:
  "items (Set NewCache 0 ''a'' (Some ''v'') 2000000000) ''a''
     = Some \<lparr>value = Some ''v'', expiration = 2\<rparr> \<and>
   (2::int) < Unix 3000000000 \<and>
   fst (Get (Set NewCache 0 ''a'' (Some ''v'') 2000000000) 3000000000 ''a'') = (None, False) \<and>
   items (snd (Get (Set NewCache 0 ''a'' (Some ''v'') 2000000000) 3000000000 ''a'')) ''a'' = None"
proof -
  have h1: "items (Set NewCache 0 ''a'' (Some ''v'') 2000000000) ''a''
              = Some \<lparr>value = Some ''v'', expiration = 2\<rparr>"
    by (simp add: Set_def NewCache_def Unix_def Add_def Second_def)
  have h2: "expiration \<lparr>value = Some ''v'', expiration = 2\<rparr> < Unix 3000000000"
    by (simp add: Unix_def Second_def)
  from Get_evicts_expired [OF h1 h2] h1 h2 show ?thesis by simp
qed

text \<open>
  C6. \<^verbatim>\<open>Get\<close> has no error result: it is a total function whose result is either
  \<open>(nil, false)\<close> or the value of the item with \<open>true\<close>. A key the map does not hold and
  a key whose item has expired both give \<open>(nil, false)\<close>, and \<open>found\<close> is false in
  exactly these two cases. A key that was never set is a miss: after any calls on a new
  cache among which none sets the key, \<^verbatim>\<open>Get\<close> of the key returns \<open>(nil, false)\<close>.
\<close>

theorem Get_never_fails:
  "(items c k = None \<longrightarrow> fst (Get c now k) = (None, False)) \<and>
   (\<forall>item. items c k = Some item \<and> expiration item < Unix now \<longrightarrow>
      fst (Get c now k) = (None, False)) \<and>
   (\<forall>item. items c k = Some item \<and> Unix now \<le> expiration item \<longrightarrow>
      fst (Get c now k) = (value item, True)) \<and>
   (snd (fst (Get c now k)) = False \<longleftrightarrow>
      items c k = None \<or> (\<exists>item. items c k = Some item \<and> expiration item < Unix now)) \<and>
   ((\<forall>x \<in> set xs. \<not> sets k x) \<longrightarrow> fst (Get (run NewCache xs) now k) = (None, False))"
proof -
  have "fst (Get (run NewCache xs) now k) = (None, False)" if "\<forall>x \<in> set xs. \<not> sets k x"
  proof -
    have "items (run NewCache xs) k = None"
      using items_run_cases [OF that, of NewCache] by (simp add: NewCache_def)
    then show ?thesis by (simp add: Get_None)
  qed
  moreover have "snd (fst (Get c now k)) = False \<longleftrightarrow>
      items c k = None \<or> (\<exists>item. items c k = Some item \<and> expiration item < Unix now)"
    by (auto simp: Get_def split: option.split)
  ultimately show ?thesis by (auto simp: Get_def)
qed

theorem Get_never_fails_witness:
  "\<not> sets ''nonexistent'' (CallSet 0 ''a'' (Some (1::nat)) 5000000000) \<and>
   \<not> sets ''nonexistent'' (CallGet 1000000000 ''nonexistent'' :: nat call) \<and>
   fst (Get (run NewCache [CallSet 0 ''a'' (Some (1::nat)) 5000000000,
                           CallGet 1000000000 ''nonexistent''])
          2000000000 ''nonexistent'') = (None, False) \<and>
   fst (Get (Set NewCache 0 ''a'' (Some (1::nat)) 5000000000) 6000000000 ''a'') = (None, False)"
  using Get_never_fails [of "run NewCache [CallSet 0 ''a'' (Some (1::nat)) 5000000000,
                           CallGet 1000000000 ''nonexistent'']" "''nonexistent''" 2000000000
      "[CallSet 0 ''a'' (Some (1::nat)) 5000000000, CallGet 1000000000 ''nonexistent'']"]
    Get_never_fails [of "Set NewCache 0 ''a'' (Some (1::nat)) 5000000000" "''a''" 6000000000 "[]"]
  by (simp add: Set_def Get_def NewCache_def Unix_def Add_def Second_def)

text \<open>
  C9. \<^verbatim>\<open>Set\<close> of a key leaves the items of all other keys as they are, and so does
  \<^verbatim>\<open>Get\<close> of a key. The cache after \<^verbatim>\<open>Get\<close> is either the cache before it or
  that cache with the key deleted, and it is the cache before it when the map does not
  hold the key or the item has not expired.
\<close>

theorem Set_Get_frame:
  "(k' \<noteq> k \<longrightarrow> items (Set c now k v d) k' = items c k') \<and>
   (k' \<noteq> k \<longrightarrow> items (snd (Get c now k)) k' = items c k') \<and>
   (snd (Get c now k) = c \<or> snd (Get c now k) = c\<lparr>items := (items c)(k := None)\<rparr>) \<and>
   (items c k = None \<longrightarrow> snd (Get c now k) = c) \<and>
   (\<forall>item. items c k = Some item \<and> Unix now \<le> expiration item \<longrightarrow> snd (Get c now k) = c)"
  by (auto simp: Set_def Get_def split: option.split)

theorem Set_Get_frame_witness:
  "''b'' \<noteq> ''a'' \<and>
   items (Set (Set NewCache 0 ''b'' (Some (1::nat)) 0) 0 ''a'' (Some 2) 1000000000) ''b''
     = items (Set NewCache 0 ''b'' (Some (1::nat)) 0) ''b'' \<and>
   items (snd (Get (Set (Set NewCache 0 ''b'' (Some (1::nat)) 0) 0 ''a'' (Some 2) 1000000000)
                 5000000000 ''a'')) ''b''
     = Some \<lparr>value = Some 1, expiration = 0\<rparr> \<and>
   items (snd (Get (Set (Set NewCache 0 ''b'' (Some (1::nat)) 0) 0 ''a'' (Some 2) 1000000000)
                 5000000000 ''a'')) ''a'' = None \<and>
   snd (Get (Set NewCache 0 ''b'' (Some (1::nat)) 0) 5000000000 ''a'')
     = Set NewCache 0 ''b'' (Some (1::nat)) 0"
  using Set_Get_frame [of "''b''" "''a''" "Set NewCache 0 ''b'' (Some (1::nat)) 0" 0 "Some 2"
      1000000000]
    Set_Get_frame [of "''b''" "''a''"
      "Set (Set NewCache 0 ''b'' (Some (1::nat)) 0) 0 ''a'' (Some 2) 1000000000" 5000000000]
    Set_Get_frame [of "''b''" "''a''" "Set NewCache 0 ''b'' (Some (1::nat)) 0" 5000000000]
  by (simp add: Set_def Get_def NewCache_def Unix_def Add_def Second_def)

text \<open>
  C10. An item that has not expired is never dropped. Let the map hold an item for key
  \<open>k\<close>. A \<^verbatim>\<open>Get\<close> of any key whose clock reading, in whole seconds, is not past the
  item's expiration leaves the item in place. A sweep leaves it in place when the clock
  reading of the iteration that visits \<open>k\<close> is not past the expiration. Over any calls
  among which none sets \<open>k\<close> and all of whose clock readings compared with \<open>k\<close>'s
  expiration are not past it, the item stays; only a \<^verbatim>\<open>Set\<close> of \<open>k\<close> replaces it.
\<close>

theorem unexpired_never_removed:
  assumes "items c k = Some item"
  shows "(Unix now \<le> expiration item \<longrightarrow> items (snd (Get c now k')) k = Some item) \<and>
         ((\<forall>t \<in> set (checks k (CallEvict visits)). Unix t \<le> expiration item) \<longrightarrow>
            items (evictExpiredItems c visits) k = Some item) \<and>
         ((\<forall>x \<in> set xs. \<not> sets k x \<and> (\<forall>t \<in> set (checks k x). Unix t \<le> expiration item)) \<longrightarrow>
            items (run c xs) k = Some item) \<and>
         items (Set c now k v d) k = Some \<lparr>value = v, expiration = Unix (Add now d)\<rparr>"
proof -
  have "items (snd (Get c now k')) k = Some item" if "Unix now \<le> expiration item"
    using assms that by (cases "k' = k") (auto simp: Get_def split: option.split)
  moreover have "items (evictExpiredItems c visits) k = Some item"
    if "\<forall>t \<in> set (checks k (CallEvict visits)). Unix t \<le> expiration item"
    using items_evict_keep [OF assms, of visits] that by simp
  moreover have "items (run c xs) k = Some item"
    if "\<forall>x \<in> set xs. \<not> sets k x \<and> (\<forall>t \<in> set (checks k x). Unix t \<le> expiration item)"
    using items_run_keep [OF assms that] .
  ultimately show ?thesis by (simp add: items_Set)
qed

theorem unexpired_never_removed_witness:
  "items (Set NewCache 0 ''a'' (Some ''v'') 2000000000) ''a''
     = Some \<lparr>value = Some ''v'', expiration = 2\<rparr> \<and>
   Unix 2999999999 \<le> 2 \<and>
   items (snd (Get (Set NewCache 0 ''a'' (Some ''v'') 2000000000) 2999999999 ''a'')) ''a''
     = Some \<lparr>value = Some ''v'', expiration = 2\<rparr> \<and>
   items (evictExpiredItems (Set NewCache 0 ''a'' (Some ''v'') 2000000000)
            [(''a'', 2999999999)]) ''a''
     = Some \<lparr>value = Some ''v'', expiration = 2\<rparr> \<and>
   items (run (Set NewCache 0 ''a'' (Some ''v'') 2000000000)
            [CallGet 1000000000 ''a'', CallEvict [(''a'', 2000000000)],
             CallGet 2999999999 ''b'']) ''a''
     = Some \<lparr>value = Some ''v'', expiration = 2\<rparr>"
proof -
  have h: "items (Set NewCache 0 ''a'' (Some ''v'') 2000000000) ''a''
             = Some \<lparr>value = Some ''v'', expiration = 2\<rparr>"
    by (simp add: Set_def NewCache_def Unix_def Add_def Second_def)
  from unexpired_never_removed [OF h, of 2999999999 "''a''" "[(''a'', 2999999999)]"
      "[CallGet 1000000000 ''a'', CallEvict [(''a'', 2000000000)], CallGet 2999999999 ''b'']"]
    h
  show ?thesis by (simp add: Unix_def Second_def)
qed

text \<open>
  C1. Let \<^verbatim>\<open>Set\<close> store key \<open>k\<close> with ttl \<open>d\<close> at clock reading \<open>s\<close>, and let any
  calls follow among which none sets \<open>k\<close> again. A \<^verbatim>\<open>Get\<close> of \<open>k\<close> at a reading
  \<open>t\<close> before \<open>s + d\<close> returns the value with \<open>found = true\<close>, the clock not having
  been read past \<open>t\<close> by the calls in between. A \<^verbatim>\<open>Get\<close> at a reading \<open>t\<close> at or
  after \<open>s + d\<close> returns \<open>(nil, false)\<close> up to the granularity of the comparison, which
  is one second: it does so whenever \<open>t\<close> is at least a second after \<open>s + d\<close>, and
  whenever \<open>t\<close> is not in the same Unix second as \<open>s + d\<close>. Whatever the cache, a
  \<^verbatim>\<open>Get\<close> that returns \<open>found = true\<close> returns the value of an item of the map
  whose expiration is not before the clock reading of the call, in whole seconds.
\<close>

theorem Get_expiration_correct:
  assumes "\<forall>x \<in> set xs. \<not> sets k x"
  shows "(t < Add s d \<and> (\<forall>x \<in> set xs. \<forall>t' \<in> set (checks k x). t' \<le> t) \<longrightarrow>
            fst (Get (run (Set (c :: 'v Cache) s k v d) xs) t k) = (v, True)) \<and>
         (Add s d + Second \<le> t \<longrightarrow>
            fst (Get (run (Set c s k v d) xs) t k) = (None, False)) \<and>
         (Add s d \<le> t \<and> Unix t \<noteq> Unix (Add s d) \<longrightarrow>
            fst (Get (run (Set c s k v d) xs) t k) = (None, False)) \<and>
         (\<forall>(c' :: 'v Cache) x. fst (Get c' t k) = (x, True) \<longrightarrow>
            (\<exists>item. items c' k = Some item \<and> value item = x \<and> Unix t \<le> expiration item))"
proof -
  let ?item = "\<lparr>value = v, expiration = Unix (Add s d)\<rparr>"
  let ?c = "run (Set c s k v d) xs"
  have stored: "items (Set c s k v d) k = Some ?item"
    by (simp add: items_Set)
  have cases: "items ?c k = None \<or> items ?c k = Some ?item"
    using items_run_cases [OF assms, of "Set c s k v d"] stored by simp
  have hit: "fst (Get ?c t k) = (v, True)"
    if "t < Add s d" and mono: "\<forall>x \<in> set xs. \<forall>t' \<in> set (checks k x). t' \<le> t"
  proof -
    from that(1) have le: "Unix t \<le> Unix (Add s d)"
      by (rule Unix_less)
    have "\<forall>x \<in> set xs. \<not> sets k x \<and> (\<forall>t' \<in> set (checks k x). Unix t' \<le> expiration ?item)"
    proof
      fix x assume x: "x \<in> set xs"
      have "Unix t' \<le> expiration ?item" if "t' \<in> set (checks k x)" for t'
        using mono x that le Unix_mono [of t' t] by fastforce
      with assms x show "\<not> sets k x \<and> (\<forall>t' \<in> set (checks k x). Unix t' \<le> expiration ?item)"
        by simp
    qed
    from items_run_keep [OF stored this] have "items ?c k = Some ?item" .
    with le show ?thesis by (simp add: Get_def)
  qed
  have miss: "fst (Get ?c t k) = (None, False)" if "Unix (Add s d) < Unix t"
    using cases that by (auto simp: Get_def)
  have late: "fst (Get ?c t k) = (None, False)" if "Add s d + Second \<le> t"
    using miss Unix_past [OF that] .
  have after: "fst (Get ?c t k) = (None, False)" if "Add s d \<le> t" and "Unix t \<noteq> Unix (Add s d)"
    using miss Unix_mono [OF that(1)] that(2) by simp
  have read: "\<exists>item. items c' k = Some item \<and> value item = x \<and> Unix t \<le> expiration item"
    if "fst (Get c' t k) = (x, True)" for c' :: "'v Cache" and x
    using that by (auto simp: Get_def split: option.splits if_splits)
  from hit late after read show ?thesis by blast
qed

text \<open>
  The scenario of the specification: \<^verbatim>\<open>Set("a", "v", 2s)\<close> at \<open>t = 0\<close>, a sweep and
  a read in the first second, then \<^verbatim>\<open>Get("a")\<close> at \<open>t = 1s\<close> and at \<open>t = 3s\<close>.
\<close>

theorem Get_expiration_correct_witness:
  "\<not> sets ''a'' (CallEvict [(''a'', 500000000)] :: string call) \<and>
   \<not> sets ''a'' (CallGet 800000000 ''a'' :: string call) \<and>
   (1000000000::int) < Add 0 2000000000 \<and>
   (500000000::int) \<le> 1000000000 \<and> (800000000::int) \<le> 1000000000 \<and>
   Add 0 2000000000 + Second \<le> 3000000000 \<and>
   fst (Get (run (Set NewCache 0 ''a'' (Some ''v'') 2000000000)
               [CallEvict [(''a'', 500000000)], CallGet 800000000 ''a''])
          1000000000 ''a'') = (Some ''v'', True) \<and>
   fst (Get (run (Set NewCache 0 ''a'' (Some ''v'') 2000000000)
               [CallEvict [(''a'', 500000000)], CallGet 800000000 ''a''])
          3000000000 ''a'') = (None, False)"
proof -
  let ?xs = "[CallEvict [(''a'', 500000000)], CallGet 800000000 ''a''] :: string call list"
  have h: "\<forall>x \<in> set ?xs. \<not> sets ''a'' x"
    by simp
  from Get_expiration_correct [OF h, of 1000000000 0 2000000000 NewCache "Some ''v''"]
    Get_expiration_correct [OF h, of 3000000000 0 2000000000 NewCache "Some ''v''"]
  show ?thesis
    by (simp add: Set_def Get_def NewCache_def Unix_def Add_def Second_def)
qed



text \<open>
  C5, as the code has it. A tick of the background loop is one call of
  \<^verbatim>\<open>evictExpiredItems\<close>: it ranges over all keys of the map and compares, in whole
  seconds, the clock reading of each iteration with the expiration of the item. Over a run
  of the loop on a cache that nothing else calls: an item whose expiration is before the
  second in which some tick starts is deleted, with no read of its key, and stays deleted;
  an item that is in the map after the run was there before it, and its expiration is not
  before the second in which any of the ticks started. An item is expired from the start
  of the second after its expiration. When the ticks start at most \<open>I\<close> apart, the first
  tick is before that instant and the run reaches it, then a tick that starts less than
  \<open>I\<close> after that instant has deleted the item. For an item stored by \<^verbatim>\<open>Set\<close> at
  \<open>s\<close> with ttl \<open>d\<close> this tick starts after \<open>s + d\<close> and less than a second and
  \<open>I\<close> after it.
\<close>

theorem startEvictionProcess_removes_expired:
  assumes "loop_ok c ticks"
  shows "(\<forall>k item start visits.
            items c k = Some item \<and> (start, visits) \<in> set ticks \<and> expiration item < Unix start \<longrightarrow>
            items (startEvictionProcess c (map snd ticks)) k = None) \<and>
         (\<forall>k item. items (startEvictionProcess c (map snd ticks)) k = Some item \<longrightarrow>
            items c k = Some item \<and>
            (\<forall>start visits. (start, visits) \<in> set ticks \<longrightarrow> Unix start \<le> expiration item)) \<and>
         (\<forall>k item I.
            items c k = Some item \<and> spaced I (map fst ticks) \<and> ticks \<noteq> [] \<and>
            fst (hd ticks) < (expiration item + 1) * Second \<and>
            (expiration item + 1) * Second \<le> fst (last ticks) \<longrightarrow>
            (\<exists>before start visits after.
               ticks = before @ (start, visits) # after \<and>
               (expiration item + 1) * Second \<le> start \<and>
               start < (expiration item + 1) * Second + I \<and>
               items (startEvictionProcess c (map snd (before @ [(start, visits)]))) k = None)) \<and>
         (\<forall>k v s d I.
            items c k = Some \<lparr>value = v, expiration = Unix (Add s d)\<rparr> \<and>
            spaced I (map fst ticks) \<and> ticks \<noteq> [] \<and>
            fst (hd ticks) \<le> Add s d \<and> Add s d + Second \<le> fst (last ticks) \<longrightarrow>
            (\<exists>before start visits after.
               ticks = before @ (start, visits) # after \<and>
               Add s d < start \<and> start < Add s d + Second + I \<and>
               items (startEvictionProcess c (map snd (before @ [(start, visits)]))) k = None))"
proof -
  have drop: "items (startEvictionProcess c (map snd ticks)) k = None"
    if "items c k = Some item" and "(start, visits) \<in> set ticks" and "expiration item < Unix start"
    for k item start visits
    using items_loop_drop [OF assms that] .
  have kept: "items c k = Some item \<and>
      (\<forall>start visits. (start, visits) \<in> set ticks \<longrightarrow> Unix start \<le> expiration item)"
    if left: "items (startEvictionProcess c (map snd ticks)) k = Some item" for k item
  proof -
    from items_loop_cases [of c "map snd ticks" k] left have before: "items c k = Some item"
      by simp
    have "Unix start \<le> expiration item" if "(start, visits) \<in> set ticks" for start visits
    proof (rule ccontr)
      assume "\<not> Unix start \<le> expiration item"
      then have "expiration item < Unix start" by simp
      from drop [OF before that this] left show False by simp
    qed
    with before show ?thesis by blast
  qed
  have first: "\<exists>before start visits after.
               ticks = before @ (start, visits) # after \<and>
               (expiration item + 1) * Second \<le> start \<and>
               start < (expiration item + 1) * Second + I \<and>
               items (startEvictionProcess c (map snd (before @ [(start, visits)]))) k = None"
    if item: "items c k = Some item" and sp: "spaced I (map fst ticks)" and ne: "ticks \<noteq> []"
      and lo: "fst (hd ticks) < (expiration item + 1) * Second"
      and hi: "(expiration item + 1) * Second \<le> fst (last ticks)"
    for k item I
  proof -
    from spaced_first_past [OF sp ne lo hi] obtain before start visits after
      where split: "ticks = before @ (start, visits) # after"
        and past: "(expiration item + 1) * Second \<le> start"
        and soon: "start < (expiration item + 1) * Second + I"
      by blast
    from assms split have "loop_ok c ((before @ [(start, visits)]) @ after)" by simp
    then have ok: "loop_ok c (before @ [(start, visits)])" by (rule loop_ok_prefix)
    from past have "expiration item < Unix start" by (simp add: Unix_after_iff)
    from items_loop_drop [OF ok item _ this, of visits]
    have "items (startEvictionProcess c (map snd (before @ [(start, visits)]))) k = None"
      by simp
    with split past soon show ?thesis by blast
  qed
  have stored: "\<exists>before start visits after.
               ticks = before @ (start, visits) # after \<and>
               Add s d < start \<and> start < Add s d + Second + I \<and>
               items (startEvictionProcess c (map snd (before @ [(start, visits)]))) k = None"
    if item: "items c k = Some \<lparr>value = v, expiration = Unix (Add s d)\<rparr>"
      and sp: "spaced I (map fst ticks)" and ne: "ticks \<noteq> []"
      and lo: "fst (hd ticks) \<le> Add s d" and hi: "Add s d + Second \<le> fst (last ticks)"
    for k v s d I
  proof -
    let ?X = "(Unix (Add s d) + 1) * Second"
    from Unix_floor [of "Add s d"] have after: "Add s d < ?X" and within: "?X \<le> Add s d + Second"
      by (simp_all add: algebra_simps)
    from lo after have lo': "fst (hd ticks) < ?X" by simp
    from hi within have hi': "?X \<le> fst (last ticks)" by simp
    from first [OF item sp ne] lo' hi' obtain before start visits after
      where "ticks = before @ (start, visits) # after" "?X \<le> start" "start < ?X + I"
        "items (startEvictionProcess c (map snd (before @ [(start, visits)]))) k = None"
      by auto
    with after within show ?thesis by force
  qed
  from drop kept first stored show ?thesis by blast
qed

text \<open>
  The claim as it is written fails on two counts. \<^verbatim>\<open>Set\<close> at 1.0s with ttl 1s stores
  the expiration 2, and the ticks start a second apart at 1.9s, 2.9s and 3.9s. At the tick
  of 2.9s the instant 2.0s has passed, and the item is in the map after this tick; it is
  deleted by the tick of 3.9s, 1.9 seconds after 2.0s. And the clock is read in every
  iteration: an item with expiration 1 that a tick visits at 1.999999999s is in the map
  when the tick completes, after an iteration that reads 2.0s.
\<close>

theorem sweep_within_one_second_counterexample:
  "Add 1000000000 1000000000 = 2000000000 \<and>
   items (Set NewCache 1000000000 ''a'' (Some ''v'') 1000000000) ''a''
     = Some \<lparr>value = Some ''v'', expiration = 2\<rparr> \<and>
   loop_ok (Set NewCache 1000000000 ''a'' (Some ''v'') 1000000000)
     [(1900000000, [(''a'', 1900000000)]), (2900000000, [(''a'', 2900000000)]),
      (3900000000, [(''a'', 3900000000)])] \<and>
   spaced Second [1900000000, 2900000000, 3900000000] \<and>
   (2000000000::int) < 2900000000 \<and>
   items (startEvictionProcess (Set NewCache 1000000000 ''a'' (Some ''v'') 1000000000)
            [[(''a'', 1900000000)], [(''a'', 2900000000)]]) ''a''
     = Some \<lparr>value = Some ''v'', expiration = 2\<rparr> \<and>
   Add 1000000000 1000000000 + Second < 3900000000 \<and>
   items (startEvictionProcess (Set NewCache 1000000000 ''a'' (Some ''v'') 1000000000)
            [[(''a'', 1900000000)], [(''a'', 2900000000)], [(''a'', 3900000000)]]) ''a'' = None \<and>
   loop_ok (Set (Set NewCache 0 ''a'' (Some ''v'') 1000000000) 0 ''b'' (Some ''w'') 1000000000)
     [(1999999999, [(''a'', 1999999999), (''b'', 2000000000)])] \<and>
   (1::int) < Unix 2000000000 \<and>
   items (evictExpiredItems
            (Set (Set NewCache 0 ''a'' (Some ''v'') 1000000000) 0 ''b'' (Some ''w'') 1000000000)
            [(''a'', 1999999999), (''b'', 2000000000)]) ''a''
     = Some \<lparr>value = Some ''v'', expiration = 1\<rparr>"
proof -
  have "loop_ok (Set NewCache 1000000000 ''a'' (Some ''v'') 1000000000)
     [(1900000000, [(''a'', 1900000000)]), (2900000000, [(''a'', 2900000000)]),
      (3900000000, [(''a'', 3900000000)])]"
    by (auto simp: ranges_over_def Set_def NewCache_def Unix_def Add_def Second_def)
  moreover have "loop_ok (Set (Set NewCache 0 ''a'' (Some ''v'') 1000000000) 0 ''b'' (Some ''w'') 1000000000)
     [(1999999999, [(''a'', 1999999999), (''b'', 2000000000)])]"
    by (auto simp: ranges_over_def Set_def NewCache_def)
  ultimately show ?thesis
    by (simp add: Set_def NewCache_def Unix_def Add_def Second_def)
qed

text \<open>
  The same run, for the statement above with \<open>I\<close> one second: the tick of 3.9s starts
  after 2.0s and less than two seconds after it, and the item is gone after it.
\<close>

theorem startEvictionProcess_removes_expired_witness:
  "loop_ok (Set NewCache 1000000000 ''a'' (Some ''v'') 1000000000)
     [(1900000000, [(''a'', 1900000000)]), (2900000000, [(''a'', 2900000000)]),
      (3900000000, [(''a'', 3900000000)])] \<and>
   items (Set NewCache 1000000000 ''a'' (Some ''v'') 1000000000) ''a''
     = Some \<lparr>value = Some ''v'', expiration = Unix (Add 1000000000 1000000000)\<rparr> \<and>
   Unix (Add 1000000000 1000000000) < Unix 3900000000 \<and>
   spaced Second [1900000000, 2900000000, 3900000000] \<and>
   (1900000000::int) \<le> Add 1000000000 1000000000 \<and>
   Add 1000000000 1000000000 + Second \<le> 3900000000 \<and>
   items (startEvictionProcess (Set NewCache 1000000000 ''a'' (Some ''v'') 1000000000)
            [[(''a'', 1900000000)], [(''a'', 2900000000)], [(''a'', 3900000000)]]) ''a'' = None \<and>
   (\<exists>before start visits after.
      [(1900000000, [(''a'', 1900000000)]), (2900000000, [(''a'', 2900000000)]),
       (3900000000, [(''a'', 3900000000)])] = before @ (start, visits) # after \<and>
      Add 1000000000 1000000000 < start \<and>
      start < Add 1000000000 1000000000 + Second + Second \<and>
      items (startEvictionProcess (Set NewCache 1000000000 ''a'' (Some ''v'') 1000000000)
               (map snd (before @ [(start, visits)]))) ''a'' = None)"
proof -
  let ?c = "Set NewCache 1000000000 ''a'' (Some ''v'') 1000000000"
  let ?ticks = "[(1900000000, [(''a'', 1900000000)]), (2900000000, [(''a'', 2900000000)]),
      (3900000000, [(''a'', 3900000000)])] :: (int \<times> (string \<times> int) list) list"
  have ok: "loop_ok ?c ?ticks"
    by (auto simp: ranges_over_def Set_def NewCache_def Unix_def Add_def Second_def)
  have item: "items ?c ''a'' = Some \<lparr>value = Some ''v'', expiration = Unix (Add 1000000000 1000000000)\<rparr>"
    by (simp add: Set_def)
  have past: "Unix (Add 1000000000 1000000000) < Unix 3900000000"
    by (simp add: Unix_def Add_def Second_def)
  have sp: "spaced Second (map fst ?ticks)"
    by (simp add: Second_def)
  have lo: "fst (hd ?ticks) \<le> Add 1000000000 1000000000"
    and hi: "Add 1000000000 1000000000 + Second \<le> fst (last ?ticks)"
    by (simp_all add: Add_def Second_def)
  note all = startEvictionProcess_removes_expired [OF ok]
  note drop = all [THEN conjunct1, rule_format,
      of "''a''" "\<lparr>value = Some ''v'', expiration = Unix (Add 1000000000 1000000000)\<rparr>"
         3900000000 "[(''a'', 3900000000)]"]
  note soon = all [THEN conjunct2, THEN conjunct2, THEN conjunct2, rule_format,
      of "''a''" "Some ''v''" 1000000000 1000000000 Second]
  have gone: "items (startEvictionProcess ?c (map snd ?ticks)) ''a'' = None"
    using item past by (intro drop) simp
  have ex: "\<exists>before start visits after.
      ?ticks = before @ (start, visits) # after \<and>
      Add 1000000000 1000000000 < start \<and>
      start < Add 1000000000 1000000000 + Second + Second \<and>
      items (startEvictionProcess ?c (map snd (before @ [(start, visits)]))) ''a'' = None"
    using item sp lo hi by (intro soon) simp
  from ok item past sp lo hi gone ex show ?thesis by simp
qed

text \<open>
  A goroutine that runs \<^verbatim>\<open>Get\<close> alone, every statement at the same clock reading,
  returns what the function \<open>Get\<close> returns and leaves the cache that \<open>Get\<close> leaves,
  with the mutex free again.
\<close>

lemma schedule_Get_alone:
  "\<exists>n \<le> 5. schedule \<lparr>cache = c, mutex = \<lparr>readers = 0, writer = False\<rparr>,
                        goroutines = [GetRLock k]\<rparr> (replicate n (0, now))
     = Some \<lparr>cache = snd (Get c now k), mutex = \<lparr>readers = 0, writer = False\<rparr>,
             goroutines = [Returned (Some (fst (Get c now k)))]\<rparr>"
proof (cases "items c k")
  case None
  then have "schedule \<lparr>cache = c, mutex = \<lparr>readers = 0, writer = False\<rparr>,
                        goroutines = [GetRLock k]\<rparr> (replicate 3 (0, now))
     = Some \<lparr>cache = snd (Get c now k), mutex = \<lparr>readers = 0, writer = False\<rparr>,
             goroutines = [Returned (Some (fst (Get c now k)))]\<rparr>"
    by (simp add: numeral_3_eq_3 schedule1_def Get_def)
  then show ?thesis by (intro exI [of _ 3]) simp
next
  case (Some item)
  show ?thesis
  proof (cases "Unix now > expiration item")
    case True
    with Some have "schedule \<lparr>cache = c, mutex = \<lparr>readers = 0, writer = False\<rparr>,
                        goroutines = [GetRLock k]\<rparr> (replicate 5 (0, now))
     = Some \<lparr>cache = snd (Get c now k), mutex = \<lparr>readers = 0, writer = False\<rparr>,
             goroutines = [Returned (Some (fst (Get c now k)))]\<rparr>"
      by (simp add: eval_nat_numeral schedule1_def Get_def)
    then show ?thesis by (intro exI [of _ 5]) simp
  next
    case False
    with Some have "schedule \<lparr>cache = c, mutex = \<lparr>readers = 0, writer = False\<rparr>,
                        goroutines = [GetRLock k]\<rparr> (replicate 4 (0, now))
     = Some \<lparr>cache = snd (Get c now k), mutex = \<lparr>readers = 0, writer = False\<rparr>,
             goroutines = [Returned (Some (fst (Get c now k)))]\<rparr>"
      by (simp add: eval_nat_numeral schedule1_def Get_def)
    then show ?thesis by (intro exI [of _ 4]) simp
  qed
qed

text \<open>
  While a goroutine holds the read lock, a \<^verbatim>\<open>Set\<close> and a sweep wait at their
  \<^verbatim>\<open>Lock\<close>, but another \<^verbatim>\<open>Get\<close> passes its \<^verbatim>\<open>RLock\<close>.
\<close>

lemma advance_while_read_locked:
  assumes "0 < readers m" and "\<not> writer m"
  shows "advance c m now (SetLock key v d) = None"
    and "advance c m now (EvictLock keys) = None"
    and "advance c m now (GetRLock key) = Some (c, m\<lparr>readers := readers m + 1\<rparr>, GetLookup key)"
  using assms by simp_all

text \<open>
  C7. The claim asks that nothing observes or changes the item of a key between the
  expiration check of a \<^verbatim>\<open>Get\<close> of that key and its \<^verbatim>\<open>delete\<close>. \<^verbatim>\<open>Get\<close> takes
  the mutex with \<^verbatim>\<open>RLock\<close>, so this fails for a second \<^verbatim>\<open>Get\<close>. The cache holds
  an item for \<open>''a''\<close> that expired at second 1; two goroutines call \<^verbatim>\<open>Get("a")\<close> and
  a third calls \<^verbatim>\<open>Set\<close>, at second 5. The first goroutine takes the read lock, finds
  the item and finds it expired; before it deletes, the second goroutine takes the read
  lock too and reads the same item from the map. The mutex then has two readers, the
  first at its \<^verbatim>\<open>delete\<close> and the second holding the item, while the \<^verbatim>\<open>Set\<close>
  waits. Both then run \<^verbatim>\<open>delete(c.items, key)\<close> on the shared map holding read locks
  only.
\<close>

theorem Get_check_delete_not_atomic:
  "schedule
     \<lparr>cache = Set NewCache 0 ''a'' (Some ''v'') 1000000000,
      mutex = \<lparr>readers = 0, writer = False\<rparr>,
      goroutines = [GetRLock ''a'', GetRLock ''a'', SetLock ''a'' (Some ''w'') 1000000000]\<rparr>
     [(0, 5000000000), (0, 5000000000), (0, 5000000000), (1, 5000000000), (1, 5000000000)]
   = Some
     \<lparr>cache = Set NewCache 0 ''a'' (Some ''v'') 1000000000,
      mutex = \<lparr>readers = 2, writer = False\<rparr>,
      goroutines = [GetDelete ''a'', GetCheck ''a'' \<lparr>value = Some ''v'', expiration = 1\<rparr>,
                    SetLock ''a'' (Some ''w'') 1000000000]\<rparr> \<and>
   in_Get ''a'' (GetDelete ''a'' :: string goroutine) \<and>
   observes ''a'' (GetCheck ''a'' \<lparr>value = Some ''v'', expiration = 1\<rparr>) \<and>
   schedule1
     \<lparr>cache = Set NewCache 0 ''a'' (Some ''v'') 1000000000,
      mutex = \<lparr>readers = 2, writer = False\<rparr>,
      goroutines = [GetDelete ''a'', GetCheck ''a'' \<lparr>value = Some ''v'', expiration = 1\<rparr>,
                    SetLock ''a'' (Some ''w'') 1000000000]\<rparr>
     (2, 5000000000) = None \<and>
   schedule
     \<lparr>cache = Set NewCache 0 ''a'' (Some ''v'') 1000000000,
      mutex = \<lparr>readers = 2, writer = False\<rparr>,
      goroutines = [GetDelete ''a'', GetCheck ''a'' \<lparr>value = Some ''v'', expiration = 1\<rparr>,
                    SetLock ''a'' (Some ''w'') 1000000000]\<rparr>
     [(1, 5000000000), (1, 5000000000), (0, 5000000000)]
   = Some
     \<lparr>cache = NewCache,
      mutex = \<lparr>readers = 2, writer = False\<rparr>,
      goroutines = [GetRUnlock (None, False), GetRUnlock (None, False),
                    SetLock ''a'' (Some ''w'') 1000000000]\<rparr>"
  by (simp add: schedule1_def Set_def NewCache_def Unix_def Add_def Second_def)

end
